theory Spec2Isabelle
  imports Main "HOL-Library.Multiset" "HOL-Library.Product_Lexorder"
begin

section \<open>The store\<close>

text \<open>
  \<^verbatim>\<open>tournament.py\<close> keeps all of its state in a PostgreSQL database with two tables,
  \<^verbatim>\<open>players (id, name, wins, losses, matches_played)\<close> and
  \<^verbatim>\<open>match_history (winner_id, loser_id)\<close>. A table is a list of rows, in insertion
  order. The serial column \<^verbatim>\<open>players.id\<close> draws its values from a sequence, which is
  the third component of the store. The schema file is not among the sources: the tables
  carry no constraint here beyond what the queries of \<^verbatim>\<open>tournament.py\<close> need.
\<close>

record player =
  player_id :: int
  name :: string
  wins :: int
  losses :: int
  matches_played :: int

record store =
  players :: "player list"
  match_history :: "(int \<times> int) list"
  next_id :: int

text \<open>
  The database as a caller finds it: \<open>None\<close> when the server cannot be reached,
  \<open>Some s\<close> when it can and the committed tables are \<open>s\<close>.
\<close>

type_synonym db = "store option"

text \<open>
  The exceptions. \<open>TypeError\<close> and \<open>IndexError\<close> are the two Python exceptions the
  functions below can raise. \<open>StoreUnavailable\<close> and \<open>InvalidPlayer\<close> are the error
  kinds the specification names; no function of \<^verbatim>\<open>tournament.py\<close> constructs them.
\<close>

datatype error = TypeError | IndexError | StoreUnavailable | InvalidPlayer

text \<open>A row of the standings is the tuple \<^verbatim>\<open>(id, name, wins, matches)\<close>; a pairing is
  \<^verbatim>\<open>(id1, name1, id2, name2)\<close>.\<close>

type_synonym standing = "int \<times> string \<times> int \<times> int"
type_synonym pairing = "int \<times> string \<times> int \<times> string"

section \<open>Python lists and cursors\<close>

text \<open>
  \<^verbatim>\<open>xs[i]\<close> and \<^verbatim>\<open>xs.pop(i)\<close>: an index from \<open>-len\<close> to \<open>len - 1\<close> is in range, a
  negative one counting from the end; any other raises \<^verbatim>\<open>IndexError\<close>. \<open>py_pop\<close>
  gives the list that is left (the source never uses the popped element).
\<close>

definition py_index :: "'a list \<Rightarrow> int \<Rightarrow> nat option" where
  "py_index xs i =
     (if 0 \<le> i \<and> i < int (length xs) then Some (nat i)
      else if i < 0 \<and> - int (length xs) \<le> i then Some (nat (int (length xs) + i))
      else None)"

definition py_get :: "'a list \<Rightarrow> int \<Rightarrow> error + 'a" where
  "py_get xs i = (case py_index xs i of None \<Rightarrow> Inl IndexError | Some n \<Rightarrow> Inr (xs ! n))"

definition py_pop :: "'a list \<Rightarrow> int \<Rightarrow> error + 'a list" where
  "py_pop xs i =
     (case py_index xs i of None \<Rightarrow> Inl IndexError
      | Some n \<Rightarrow> Inr (take n xs @ drop (Suc n) xs))"

text \<open>\<^verbatim>\<open>c.fetchone()\<close>: the first row of the result, or Python's \<^verbatim>\<open>None\<close>.\<close>

definition fetchone :: "'a list \<Rightarrow> 'a option" where
  "fetchone rows = (case rows of [] \<Rightarrow> None | r # _ \<Rightarrow> Some r)"

section \<open>The operations of tournament.py\<close>

text \<open>
  \<^verbatim>\<open>connect\<close> (lines 9-16) wraps \<^verbatim>\<open>psycopg2.connect\<close> in a bare \<^verbatim>\<open>except\<close> that
  prints a message and falls off the end of the function: on a failure it returns
  Python's \<^verbatim>\<open>None\<close> and raises nothing. Every caller unpacks the result with
  \<^verbatim>\<open>db, c = connect()\<close>, which raises \<^verbatim>\<open>TypeError\<close> on \<^verbatim>\<open>None\<close>.

  An operation that writes returns its outcome and the committed database after the
  call; one that only reads returns its outcome. Statements executed on a connection
  are visible to that connection only, until \<^verbatim>\<open>db.commit()\<close>: an exception raised
  before the commit leaves the committed tables as they were.
\<close>

definition connect :: "db \<Rightarrow> store option" where
  "connect d = (case d of None \<Rightarrow> None | Some s \<Rightarrow> Some s)"

definition deleteMatches :: "db \<Rightarrow> (error + unit) \<times> db" where
  "deleteMatches d =
     (case connect d of
        None \<Rightarrow> (Inl TypeError, d)
      | Some s \<Rightarrow>
          (let s1 = s\<lparr>players :=
                      map (\<lambda>p. p\<lparr>wins := 0, losses := 0, matches_played := 0\<rparr>) (players s)\<rparr>;
               s2 = s1\<lparr>match_history := []\<rparr>
           in (Inr (), Some s2)))"

definition deletePlayers :: "db \<Rightarrow> (error + unit) \<times> db" where
  "deletePlayers d =
     (case connect d of
        None \<Rightarrow> (Inl TypeError, d)
      | Some s \<Rightarrow> (Inr (), Some (s\<lparr>players := []\<rparr>)))"

definition countPlayers :: "db \<Rightarrow> error + int" where
  "countPlayers d =
     (case connect d of
        None \<Rightarrow> Inl TypeError
      | Some s \<Rightarrow> Inr (int (length (players s))))"

text \<open>
  \<^verbatim>\<open>registerPlayer\<close> inserts the name only; the other columns take the values the table
  declares for them.
\<close>

definition new_player :: "int \<Rightarrow> string \<Rightarrow> player" where
  \<comment> \<open>Modelled from the spec: the row that \<^verbatim>\<open>INSERT INTO players (name)\<close> creates (the
      schema with the column defaults is not among the sources). The id is assigned by
      the store and the counters start at zero, as the comment at lines 86-88 of
      \<^verbatim>\<open>tournament.py\<close> expects of a fresh tournament.\<close>
  "new_player i n = \<lparr>player_id = i, name = n, wins = 0, losses = 0, matches_played = 0\<rparr>"

definition registerPlayer :: "db \<Rightarrow> string \<Rightarrow> (error + unit) \<times> db" where
  "registerPlayer d n =
     (case connect d of
        None \<Rightarrow> (Inl TypeError, d)
      | Some s \<Rightarrow>
          (Inr (), Some (s\<lparr>players := players s @ [new_player (next_id s) n],
                           next_id := next_id s + 1\<rparr>)))"

text \<open>
  \<^verbatim>\<open>playerStandings\<close> reads the view \<^verbatim>\<open>player_standings\<close>, whose definition is in the
  schema and not among the sources: it is the parameter \<open>vw\<close>. When the view has no
  row, the function reads the players table instead, with \<^verbatim>\<open>ORDER BY a.wins DESC\<close>.
  That clause orders the rows by their wins and says nothing of rows with equal wins:
  these come in the order in which the database reads the table, which is not the order
  of insertion in general (an \<^verbatim>\<open>UPDATE\<close> may move a row). The order of reading is
  the parameter \<open>scan\<close>, a rearrangement of the rows of the table; sorting what it
  yields by descending wins, stably, gives every result the query can have as \<open>scan\<close>
  varies.
\<close>

definition standing_of :: "player \<Rightarrow> standing" where
  "standing_of a = (player_id a, name a, wins a, matches_played a)"

definition playerStandings ::
  "(store \<Rightarrow> standing list) \<Rightarrow> (player list \<Rightarrow> player list) \<Rightarrow> db \<Rightarrow> error + standing list" where
  "playerStandings vw scan d =
     (case connect d of
        None \<Rightarrow> Inl TypeError
      | Some s \<Rightarrow>
          (let standings = vw s
           in if length standings = 0
              then Inr (map standing_of (sort_key (\<lambda>a. - wins a) (scan (players s))))
              else Inr standings))"

text \<open>
  \<^verbatim>\<open>reportMatch\<close> (lines 100-138) runs its two updates and its insert, then reads the
  two names with \<^verbatim>\<open>c.fetchone()[0]\<close>, and commits last. Subscripting the \<^verbatim>\<open>None\<close> that
  \<^verbatim>\<open>fetchone\<close> returns for an id with no row raises \<^verbatim>\<open>TypeError\<close> before the commit.
\<close>

definition add_win :: "int \<Rightarrow> player list \<Rightarrow> player list" where
  "add_win i ps =
     map (\<lambda>p. if player_id p = i
               then p\<lparr>wins := wins p + 1, matches_played := matches_played p + 1\<rparr>
               else p) ps"

definition add_loss :: "int \<Rightarrow> player list \<Rightarrow> player list" where
  "add_loss i ps =
     map (\<lambda>p. if player_id p = i
               then p\<lparr>losses := losses p + 1, matches_played := matches_played p + 1\<rparr>
               else p) ps"

definition select_name :: "store \<Rightarrow> int \<Rightarrow> string list" where
  "select_name s i = map name (filter (\<lambda>p. player_id p = i) (players s))"

definition reportMatch :: "db \<Rightarrow> int \<Rightarrow> int \<Rightarrow> (error + unit) \<times> db" where
  "reportMatch d winner loser =
     (case connect d of
        None \<Rightarrow> (Inl TypeError, d)
      | Some s \<Rightarrow>
          (let t1 = s\<lparr>players := add_win winner (players s)\<rparr>;
               t2 = t1\<lparr>players := add_loss loser (players t1)\<rparr>;
               t3 = t2\<lparr>match_history := match_history t2 @ [(winner, loser)]\<rparr>
           in case fetchone (select_name t3 winner) of
                None \<Rightarrow> (Inl TypeError, d)
              | Some winner_name \<Rightarrow>
                  (case fetchone (select_name t3 loser) of
                     None \<Rightarrow> (Inl TypeError, d)
                   | Some loser_name \<Rightarrow> (Inr (), Some t3))))"

definition reportBye :: "db \<Rightarrow> int \<Rightarrow> (error + unit) \<times> db" where
  "reportBye d winner =
     (case connect d of
        None \<Rightarrow> (Inl TypeError, d)
      | Some s \<Rightarrow>
          (let t1 = s\<lparr>players := add_win winner (players s)\<rparr>;
               t2 = t1\<lparr>match_history := match_history t1 @ [(winner, - 1)]\<rparr>
           in (Inr (), Some t2)))"

definition checkBye :: "db \<Rightarrow> int \<Rightarrow> error + bool" where
  "checkBye d p1 =
     (case connect d of
        None \<Rightarrow> Inl TypeError
      | Some s \<Rightarrow>
          (let count = length (filter (\<lambda>(w, l). w = p1 \<and> l = - 1) (match_history s))
           in if count = 0 then Inr False else Inr True))"

definition rematchCheck :: "db \<Rightarrow> int \<Rightarrow> int \<Rightarrow> error + bool" where
  "rematchCheck d p1 p2 =
     (case connect d of
        None \<Rightarrow> Inl TypeError
      | Some s \<Rightarrow>
          (let ret = length (filter (\<lambda>(w, l). (w = p1 \<and> l = p2) \<or> (w = p2 \<and> l = p1))
                                (match_history s))
           in if ret = 0 then Inr False else Inr True))"

section \<open>swissPairings\<close>

text \<open>
  The scan for the player who gets the bye, lines 195-198:
  \<^verbatim>\<open>while checkBye(standings[len(standings)-k][0]) and len(standings) - k >= 0: k+=1\<close>.
  The subscript is evaluated before the bound is tested, so that after the first row
  (\<open>k = len\<close>) the scan reads \<^verbatim>\<open>standings[-1]\<close>, the last row again, and only then
  finds \<open>len - k \<ge> 0\<close> false. The result is the value of \<open>k\<close> after the loop.
\<close>

function bye_scan :: "db \<Rightarrow> standing list \<Rightarrow> int \<Rightarrow> error + int" where
  "bye_scan d standings k =
     (case py_get standings (int (length standings) - k) of
        Inl e \<Rightarrow> Inl e
      | Inr row \<Rightarrow>
          (case checkBye d (fst row) of
             Inl e \<Rightarrow> Inl e
           | Inr b \<Rightarrow>
               if b \<and> int (length standings) - k \<ge> 0
               then bye_scan d standings (k + 1)
               else Inr k))"
  by pat_completeness auto
termination
  by (relation "measure (\<lambda>(d, standings, k). nat (int (length standings) + 1 - k))") auto

declare bye_scan.simps [simp del]

text \<open>
  Lines 195-201, the body of \<^verbatim>\<open>if len(standings)%2 != 0\<close>: the scan, then
  \<^verbatim>\<open>reportBye(standings[len(standings)-k][0])\<close> and
  \<^verbatim>\<open>standings.pop(len(standings)-k)\<close>. The result is the standings that are left and
  the database after the bye.
\<close>

definition award_bye :: "db \<Rightarrow> standing list \<Rightarrow> (error + standing list) \<times> db" where
  "award_bye d standings =
     (case bye_scan d standings 1 of
        Inl e \<Rightarrow> (Inl e, d)
      | Inr k \<Rightarrow>
          (case py_get standings (int (length standings) - k) of
             Inl e \<Rightarrow> (Inl e, d)
           | Inr row \<Rightarrow>
               (case reportBye d (fst row) of
                  (Inl e, d') \<Rightarrow> (Inl e, d')
                | (Inr u, d') \<Rightarrow>
                    (case py_pop standings (int (length standings) - k) of
                       Inl e \<Rightarrow> (Inl e, d')
                     | Inr standings' \<Rightarrow> (Inr standings', d')))))"

text \<open>
  The scan for the opponent of the first row, lines 207-209:
  \<^verbatim>\<open>while j < len(standings)-1 and rematchCheck(standings[0][0],standings[j][0]): j+=1\<close>.
  Python's \<^verbatim>\<open>and\<close> does not evaluate \<^verbatim>\<open>rematchCheck\<close> when the bound is reached.
\<close>

function rematch_scan :: "db \<Rightarrow> standing list \<Rightarrow> int \<Rightarrow> error + int" where
  "rematch_scan d standings j =
     (if j < int (length standings) - 1
      then (case py_get standings 0 of
              Inl e \<Rightarrow> Inl e
            | Inr r0 \<Rightarrow>
                (case py_get standings j of
                   Inl e \<Rightarrow> Inl e
                 | Inr rj \<Rightarrow>
                     (case rematchCheck d (fst r0) (fst rj) of
                        Inl e \<Rightarrow> Inl e
                      | Inr b \<Rightarrow> if b then rematch_scan d standings (j + 1) else Inr j)))
      else Inr j)"
  by pat_completeness auto
termination
  by (relation "measure (\<lambda>(d, standings, j). nat (int (length standings) - j))") auto

declare rematch_scan.simps [simp del]

text \<open>
  Lines 207-214: the scan from \<open>j = 1\<close>, the tuple \<^verbatim>\<open>temp\<close>, and the two pops
  \<^verbatim>\<open>standings.pop(0)\<close> and \<^verbatim>\<open>standings.pop(j-1)\<close>. The result is \<^verbatim>\<open>temp\<close> and the
  standings that are left.
\<close>

definition make_pair :: "db \<Rightarrow> standing list \<Rightarrow> error + (pairing \<times> standing list)" where
  "make_pair d standings =
     (case rematch_scan d standings 1 of
        Inl e \<Rightarrow> Inl e
      | Inr j \<Rightarrow>
          (case py_get standings 0 of
             Inl e \<Rightarrow> Inl e
           | Inr r0 \<Rightarrow>
               (case py_get standings j of
                  Inl e \<Rightarrow> Inl e
                | Inr rj \<Rightarrow>
                    (case py_pop standings 0 of
                       Inl e \<Rightarrow> Inl e
                     | Inr standings1 \<Rightarrow>
                         (case py_pop standings1 (j - 1) of
                            Inl e \<Rightarrow> Inl e
                          | Inr standings2 \<Rightarrow>
                              Inr ((fst r0, fst (snd r0), fst rj, fst (snd rj)), standings2))))))"

text \<open>
  The loop \<^verbatim>\<open>while len(standings) > 0\<close> of lines 185-216, with the list \<^verbatim>\<open>ret\<close> it
  appends to. An exception leaves the loop with the database as committed so far.
\<close>

function pairing_loop :: "db \<Rightarrow> standing list \<Rightarrow> pairing list \<Rightarrow> (error + pairing list) \<times> db" where
  "pairing_loop d standings ret =
     (if length standings > 0
      then (case (if length standings mod 2 \<noteq> 0 then award_bye d standings
                  else (Inr standings, d)) of
              (Inl e, d1) \<Rightarrow> (Inl e, d1)
            | (Inr standings1, d1) \<Rightarrow>
                (case make_pair d1 standings1 of
                   Inl e \<Rightarrow> (Inl e, d1)
                 | Inr (temp, standings2) \<Rightarrow> pairing_loop d1 standings2 (ret @ [temp])))
      else (Inr ret, d))"
  by pat_completeness auto
termination
proof (relation "measure (\<lambda>(d, standings, ret). length standings)", goal_cases)
  case 1
  show ?case by simp
next
  case (2 d standings ret r d1 standings1 p temp standings2)
  have pop: "Suc (length ys) = length xs" if "py_pop xs i = Inr ys" for xs ys :: "standing list" and i
    using that by (auto simp: py_pop_def py_index_def split: if_splits)
  have "Suc (Suc (length standings2)) = length standings1"
    using 2 by (auto simp: make_pair_def split: sum.splits dest!: pop)
  moreover have "length standings1 \<le> length standings"
    using 2 by (auto simp: award_bye_def split: if_splits sum.splits prod.splits dest!: pop)
  ultimately show ?case by simp
qed

declare pairing_loop.simps [simp del]

definition swissPairings ::
  "(store \<Rightarrow> standing list) \<Rightarrow> (player list \<Rightarrow> player list) \<Rightarrow> db \<Rightarrow>
     (error + pairing list) \<times> db" where
  "swissPairings vw scan d =
     (case connect d of
        None \<Rightarrow> (Inl TypeError, d)
      | Some s \<Rightarrow>
          (case playerStandings vw scan d of
             Inl e \<Rightarrow> (Inl e, d)
           | Inr standings \<Rightarrow> pairing_loop d standings []))"

section \<open>The view read by playerStandings\<close>

text \<open>
  The view that \<^verbatim>\<open>playerStandings\<close> reads is defined in the schema, which is not among
  the sources. What is known of it from \<^verbatim>\<open>tournament.py\<close>: its rows are
  \<^verbatim>\<open>(id, name, wins, matches)\<close>, "ordered by wins AND omw" (line 80), and it is empty
  while \<^verbatim>\<open>match_history\<close> is (lines 86-88).
\<close>

definition wins_of :: "store \<Rightarrow> int \<Rightarrow> int" where
  \<comment> \<open>Modelled from the spec: the win total of the player with this id (part of the view
      \<^verbatim>\<open>player_standings\<close>, whose SQL is not among the sources).\<close>
  "wins_of s i = sum_list (map wins (filter (\<lambda>p. player_id p = i) (players s)))"

definition omw :: "store \<Rightarrow> int \<Rightarrow> int" where
  \<comment> \<open>Modelled from the spec: opponents' match wins, "the sum of wins accumulated by
      every opponent a given player has faced" (the view's SQL is not among the
      sources). A bye has no opponent.\<close>
  "omw s i =
     sum_list (map (\<lambda>(w, l). if w = i \<and> l \<noteq> - 1 then wins_of s l
                              else if l = i then wins_of s w else 0)
                   (match_history s))"

definition player_standings :: "store \<Rightarrow> standing list" where
  \<comment> \<open>Modelled from the spec: the view \<^verbatim>\<open>player_standings\<close> (its SQL is not among the
      sources), "ranked primarily by descending wins, secondarily by descending
      opponents' match wins", ties retaining the order of the store; no row before the
      first match is recorded.\<close>
  "player_standings s =
     (if match_history s = [] then []
      else map standing_of
             (sort_key (\<lambda>a. (- wins a, - omw s (player_id a))) (players s)))"

section \<open>Notions used to state the properties\<close>

text \<open>The player ids of a list of pairings, in order: both ids of every tuple.\<close>

definition pairing_ids :: "pairing list \<Rightarrow> int list" where
  "pairing_ids ps = concat (map (\<lambda>(id1, name1, id2, name2). [id1, id2]) ps)"

text \<open>
  Two orders in which the database may read a table: the order of insertion, and the
  reverse of it.
\<close>

definition insertion_order :: "player list \<Rightarrow> player list" where
  "insertion_order ps = ps"

definition reverse_order :: "player list \<Rightarrow> player list" where
  "reverse_order ps = rev ps"

text \<open>
  Example stores. In \<open>all_had_bye\<close> three players have played three rounds, each with
  one bye and one match, so that every player has had a bye; \<open>two_had_bye\<close> is the same
  tournament after two rounds. In \<open>all_played\<close> four players have met one another. In
  \<open>one_player\<close> a single player is registered and no match is recorded, in
  \<open>two_registered\<close> two are. In \<open>mid_round\<close> four players have played a first round
  and one match of the second, so that two players without a win differ in their
  opponents' match wins.
\<close>

definition all_had_bye :: store where
  "all_had_bye =
     \<lparr>players = [\<lparr>player_id = 1, name = ''Bill'', wins = 3, losses = 0, matches_played = 3\<rparr>,
                 \<lparr>player_id = 2, name = ''Rob'', wins = 2, losses = 1, matches_played = 3\<rparr>,
                 \<lparr>player_id = 3, name = ''Jane'', wins = 1, losses = 2, matches_played = 3\<rparr>],
      match_history = [(3, - 1), (1, 2), (2, - 1), (1, 3), (1, - 1), (2, 3)],
      next_id = 4\<rparr>"

definition two_had_bye :: store where
  "two_had_bye =
     \<lparr>players = [\<lparr>player_id = 1, name = ''Bill'', wins = 2, losses = 0, matches_played = 2\<rparr>,
                 \<lparr>player_id = 2, name = ''Rob'', wins = 1, losses = 1, matches_played = 2\<rparr>,
                 \<lparr>player_id = 3, name = ''Jane'', wins = 1, losses = 1, matches_played = 2\<rparr>],
      match_history = [(3, - 1), (1, 2), (2, - 1), (1, 3)],
      next_id = 4\<rparr>"

definition all_played :: store where
  "all_played =
     \<lparr>players = [\<lparr>player_id = 1, name = ''Bill'', wins = 3, losses = 0, matches_played = 3\<rparr>,
                 \<lparr>player_id = 2, name = ''Rob'', wins = 2, losses = 1, matches_played = 3\<rparr>,
                 \<lparr>player_id = 3, name = ''Jane'', wins = 1, losses = 2, matches_played = 3\<rparr>,
                 \<lparr>player_id = 4, name = ''Jess'', wins = 0, losses = 3, matches_played = 3\<rparr>],
      match_history = [(1, 2), (3, 4), (1, 3), (2, 4), (1, 4), (2, 3)],
      next_id = 5\<rparr>"

definition one_player :: store where
  "one_player = \<lparr>players = [new_player 1 ''Bill''], match_history = [], next_id = 2\<rparr>"

definition mid_round :: store where
  "mid_round =
     \<lparr>players = [\<lparr>player_id = 1, name = ''Bill'', wins = 1, losses = 1, matches_played = 2\<rparr>,
                 \<lparr>player_id = 2, name = ''Rob'', wins = 0, losses = 1, matches_played = 1\<rparr>,
                 \<lparr>player_id = 3, name = ''Jane'', wins = 2, losses = 0, matches_played = 2\<rparr>,
                 \<lparr>player_id = 4, name = ''Jess'', wins = 0, losses = 1, matches_played = 1\<rparr>],
      match_history = [(1, 2), (3, 4), (3, 1)],
      next_id = 5\<rparr>"

definition two_registered :: store where
  "two_registered =
     \<lparr>players = [new_player 1 ''Bill'', new_player 2 ''Rob''], match_history = [], next_id = 3\<rparr>"

text \<open>Every player's \<^verbatim>\<open>matches_played\<close> is the sum of the wins and the losses.\<close>

definition consistent :: "store \<Rightarrow> bool" where
  "consistent s = list_all (\<lambda>p. matches_played p = wins p + losses p) (players s)"

text \<open>The wins of a standings row, \<^verbatim>\<open>row[2]\<close>.\<close>

definition wins_col :: "standing \<Rightarrow> int" where
  "wins_col row = fst (snd (snd row))"

section \<open>Facts about the operations on a reachable store\<close>

lemma checkBye_Some: "checkBye (Some s) p = Inr ((p, - 1) \<in> set (match_history s))"
  by (auto simp: checkBye_def connect_def filter_empty_conv)

lemma rematchCheck_Some:
  "rematchCheck (Some s) p q = Inr ((p, q) \<in> set (match_history s) \<or> (q, p) \<in> set (match_history s))"
  by (auto simp: rematchCheck_def connect_def filter_empty_conv)

lemma reportBye_Some:
  "reportBye (Some s) w =
     (Inr (), Some (s\<lparr>players := add_win w (players s),
                       match_history := match_history s @ [(w, - 1)]\<rparr>))"
  by (simp add: reportBye_def connect_def)

lemma py_get_nat: "i < length xs \<Longrightarrow> py_get xs (int i) = Inr (xs ! i)"
  by (simp add: py_get_def py_index_def)

lemma py_get_last: "xs \<noteq> [] \<Longrightarrow> py_get xs (- 1) = Inr (last xs)"
  by (cases xs rule: rev_cases) (auto simp: py_get_def py_index_def nat_add_distrib)

lemma py_get_Nil: "py_get [] i = Inl IndexError"
  by (simp add: py_get_def py_index_def)

lemma py_pop_nat: "i < length xs \<Longrightarrow> py_pop xs (int i) = Inr (take i xs @ drop (Suc i) xs)"
  by (simp add: py_pop_def py_index_def)

lemma py_pop_last: "xs \<noteq> [] \<Longrightarrow> py_pop xs (- 1) = Inr (butlast xs)"
  by (cases xs rule: rev_cases) (auto simp: py_pop_def py_index_def nat_add_distrib)

lemma bye_scan_step:
  assumes "p < length st"
  shows "bye_scan (Some s) st (int (length st) - int p) =
           (if (fst (st ! p), - 1) \<in> set (match_history s)
            then bye_scan (Some s) st (int (length st) - int p + 1)
            else Inr (int (length st) - int p))"
proof -
  have "py_get st (int (length st) - (int (length st) - int p)) = Inr (st ! p)"
    using assms py_get_nat [of p st] by simp
  then show ?thesis
    by (subst bye_scan.simps) (simp add: checkBye_Some)
qed

lemma bye_scan_end:
  assumes "st \<noteq> []"
  shows "bye_scan (Some s) st (int (length st) + 1) = Inr (int (length st) + 1)"
proof -
  have "py_get st (int (length st) - (int (length st) + 1)) = Inr (last st)"
    using assms py_get_last [of st] by simp
  then show ?thesis
    by (subst bye_scan.simps) (simp add: checkBye_Some)
qed

lemma bye_scan_all:
  assumes "p < length st" "\<forall>i\<le>p. (fst (st ! i), - 1) \<in> set (match_history s)"
  shows "bye_scan (Some s) st (int (length st) - int p) = Inr (int (length st) + 1)"
  using assms
proof (induction p)
  case 0
  then have "st \<noteq> []" by auto
  with 0 show ?case
    using bye_scan_step [of 0 st s] bye_scan_end [of st s] by simp
next
  case (Suc p)
  have "int (length st) - int (Suc p) + 1 = int (length st) - int p" by simp
  with Suc show ?case
    using bye_scan_step [of "Suc p" st s] by simp
qed

lemma bye_scan_found:
  assumes "i \<le> p" "p < length st" "(fst (st ! i), - 1) \<notin> set (match_history s)"
    "\<forall>i'. i < i' \<and> i' \<le> p \<longrightarrow> (fst (st ! i'), - 1) \<in> set (match_history s)"
  shows "bye_scan (Some s) st (int (length st) - int p) = Inr (int (length st) - int i)"
  using assms
proof (induction p)
  case 0
  then show ?case using bye_scan_step [of 0 st s] by simp
next
  case (Suc p)
  show ?case
  proof (cases "i = Suc p")
    case True
    with Suc.prems show ?thesis using bye_scan_step [of "Suc p" st s] by simp
  next
    case False
    with Suc.prems have le: "i \<le> p" and bye: "(fst (st ! Suc p), - 1) \<in> set (match_history s)"
      by auto
    have "int (length st) - int (Suc p) + 1 = int (length st) - int p" by simp
    with Suc.prems le bye Suc.IH show ?thesis
      using bye_scan_step [of "Suc p" st s] by simp
  qed
qed

lemma award_bye_found:
  assumes "i < length st" "(fst (st ! i), - 1) \<notin> set (match_history s)"
    "\<forall>i'. i < i' \<and> i' < length st \<longrightarrow> (fst (st ! i'), - 1) \<in> set (match_history s)"
  shows "award_bye (Some s) st =
           (Inr (take i st @ drop (Suc i) st), snd (reportBye (Some s) (fst (st ! i))))"
proof -
  have ne: "st \<noteq> []" using assms(1) by auto
  have "bye_scan (Some s) st (int (length st) - int (length st - 1)) = Inr (int (length st) - int i)"
    using assms ne by (intro bye_scan_found) auto
  moreover have "int (length st) - int (length st - 1) = 1"
    using ne by (simp add: of_nat_diff Suc_leI)
  ultimately have scan: "bye_scan (Some s) st 1 = Inr (int (length st) - int i)" by simp
  have idx: "int (length st) - (int (length st) - int i) = int i" by simp
  show ?thesis
    using assms(1)
    by (simp add: award_bye_def scan idx py_get_nat py_pop_nat reportBye_Some)
qed

lemma award_bye_all:
  assumes "st \<noteq> []" "\<forall>i<length st. (fst (st ! i), - 1) \<in> set (match_history s)"
  shows "award_bye (Some s) st =
           (Inr (butlast st), snd (reportBye (Some s) (fst (last st))))"
proof -
  have "bye_scan (Some s) st (int (length st) - int (length st - 1)) = Inr (int (length st) + 1)"
  proof (rule bye_scan_all)
    show "length st - 1 < length st" using assms(1) by simp
    show "\<forall>i\<le>length st - 1. (fst (st ! i), - 1) \<in> set (match_history s)"
      using assms by (auto simp: Suc_le_eq dest: le_imp_less_Suc)
  qed
  moreover have "int (length st) - int (length st - 1) = 1"
    using assms(1) by (simp add: of_nat_diff Suc_leI)
  ultimately have scan: "bye_scan (Some s) st 1 = Inr (int (length st) + 1)" by simp
  have idx: "int (length st) - (int (length st) + 1) = - 1" by simp
  show ?thesis
    using assms(1)
    by (simp add: award_bye_def scan idx py_get_last py_pop_last reportBye_Some)
qed

lemma last_without_bye:
  fixes i n :: nat
  assumes "i < n" "\<not> B i"
  shows "\<exists>m<n. \<not> B m \<and> (\<forall>i'. m < i' \<and> i' < n \<longrightarrow> B i')"
  using assms
proof (induction n)
  case 0
  then show ?case by simp
next
  case (Suc n)
  show ?case
  proof (cases "B n")
    case False
    then show ?thesis by (intro exI [of _ n]) auto
  next
    case True
    with Suc.prems have "i < n" by (cases "i = n") auto
    with Suc obtain m where m: "m < n" "\<not> B m" "\<forall>i'. m < i' \<and> i' < n \<longrightarrow> B i'" by blast
    have "\<forall>i'. m < i' \<and> i' < Suc n \<longrightarrow> B i'"
      using m(3) True by (auto simp: less_Suc_eq)
    with m show ?thesis by (intro exI [of _ m]) auto
  qed
qed

lemma award_bye_Some:
  assumes "st \<noteq> []"
  shows "\<exists>i<length st. award_bye (Some s) st =
           (Inr (take i st @ drop (Suc i) st), snd (reportBye (Some s) (fst (st ! i))))"
proof (cases "\<forall>i<length st. (fst (st ! i), - 1) \<in> set (match_history s)")
  case True
  have "butlast st = take (length st - 1) st @ drop (Suc (length st - 1)) st"
    by (simp add: butlast_conv_take)
  moreover have "last st = st ! (length st - 1)"
    using assms by (simp add: last_conv_nth)
  moreover have "length st - 1 < length st" using assms by simp
  ultimately show ?thesis
    using award_bye_all [OF assms True] by metis
next
  case False
  then obtain i where "i < length st" "\<not> (fst (st ! i), - 1) \<in> set (match_history s)" by auto
  from last_without_bye [of i "length st" "\<lambda>i. (fst (st ! i), - 1) \<in> set (match_history s)", OF this]
  obtain m where "m < length st" "(fst (st ! m), - 1) \<notin> set (match_history s)"
    "\<forall>i'. m < i' \<and> i' < length st \<longrightarrow> (fst (st ! i'), - 1) \<in> set (match_history s)"
    by blast
  then show ?thesis using award_bye_found [of m st s] by blast
qed

lemma rematch_scan_Some:
  assumes "1 \<le> j" "j < length st"
  shows "\<exists>j'. rematch_scan (Some s) st (int j) = Inr (int j') \<and> j \<le> j' \<and> j' < length st \<and>
           (\<forall>i. j \<le> i \<and> i < j' \<longrightarrow>
              rematchCheck (Some s) (fst (st ! 0)) (fst (st ! i)) = Inr True) \<and>
           (j' < length st - 1 \<longrightarrow>
              rematchCheck (Some s) (fst (st ! 0)) (fst (st ! j')) = Inr False)"
  using assms
proof (induction "length st - j" arbitrary: j)
  case 0
  then show ?case by simp
next
  case (Suc m)
  show ?case
  proof (cases "int j < int (length st) - 1")
    case False
    then have "rematch_scan (Some s) st (int j) = Inr (int j)"
      by (subst rematch_scan.simps) simp
    moreover have "\<not> j < length st - 1" using False by auto
    ultimately show ?thesis using Suc.prems by (intro exI [of _ j]) auto
  next
    case True
    then have lt: "Suc j < length st" by auto
    have g0: "py_get st 0 = Inr (st ! 0)" using py_get_nat [of 0 st] Suc.prems by (cases st) auto
    have gj: "py_get st (int j) = Inr (st ! j)" using py_get_nat [of j st] Suc.prems by simp
    obtain b where b: "rematchCheck (Some s) (fst (st ! 0)) (fst (st ! j)) = Inr b"
      by (simp add: rematchCheck_Some)
    have unfold: "rematch_scan (Some s) st (int j) =
        (if b then rematch_scan (Some s) st (int (Suc j)) else Inr (int j))"
      using True by (subst rematch_scan.simps) (simp add: g0 gj b add.commute)
    show ?thesis
    proof (cases b)
      case False
      with unfold b Suc.prems show ?thesis by (intro exI [of _ j]) auto
    next
      case True
      have "m = length st - Suc j" using Suc.hyps(2) by simp
      from Suc.hyps(1) [OF this _ lt]
      obtain j' where j': "rematch_scan (Some s) st (int (Suc j)) = Inr (int j')" "Suc j \<le> j'"
        "j' < length st"
        "\<forall>i. Suc j \<le> i \<and> i < j' \<longrightarrow> rematchCheck (Some s) (fst (st ! 0)) (fst (st ! i)) = Inr True"
        "j' < length st - 1 \<longrightarrow> rematchCheck (Some s) (fst (st ! 0)) (fst (st ! j')) = Inr False"
        by auto
      have "\<forall>i. j \<le> i \<and> i < j' \<longrightarrow> rematchCheck (Some s) (fst (st ! 0)) (fst (st ! i)) = Inr True"
      proof (intro allI impI)
        fix i assume "j \<le> i \<and> i < j'"
        then show "rematchCheck (Some s) (fst (st ! 0)) (fst (st ! i)) = Inr True"
          using j'(4) b True by (cases "i = j") auto
      qed
      with j' unfold True show ?thesis by (intro exI [of _ j']) auto
    qed
  qed
qed

lemma make_pair_Some:
  assumes "2 \<le> length st"
  shows "\<exists>j. 1 \<le> j \<and> j < length st \<and>
           make_pair (Some s) st =
             Inr ((fst (st ! 0), fst (snd (st ! 0)), fst (st ! j), fst (snd (st ! j))),
                  take (j - 1) (tl st) @ drop j (tl st)) \<and>
           (\<forall>i. 1 \<le> i \<and> i < j \<longrightarrow>
              rematchCheck (Some s) (fst (st ! 0)) (fst (st ! i)) = Inr True) \<and>
           (j < length st - 1 \<longrightarrow>
              rematchCheck (Some s) (fst (st ! 0)) (fst (st ! j)) = Inr False)"
proof -
  from rematch_scan_Some [of 1 st s] assms
  obtain j where j: "rematch_scan (Some s) st 1 = Inr (int j)" "1 \<le> j" "j < length st"
    "\<forall>i. 1 \<le> i \<and> i < j \<longrightarrow> rematchCheck (Some s) (fst (st ! 0)) (fst (st ! i)) = Inr True"
    "j < length st - 1 \<longrightarrow> rematchCheck (Some s) (fst (st ! 0)) (fst (st ! j)) = Inr False"
    by auto
  have g0: "py_get st 0 = Inr (st ! 0)" using py_get_nat [of 0 st] assms by (cases st) auto
  have gj: "py_get st (int j) = Inr (st ! j)" using py_get_nat [of j st] j by simp
  have p0: "py_pop st 0 = Inr (tl st)"
    using py_pop_nat [of 0 st] assms by (cases st) (auto simp: drop_Suc)
  have "int j - 1 = int (j - 1)" using j(2) by simp
  moreover have "j - 1 < length (tl st)" using j by simp
  ultimately have p1: "py_pop (tl st) (int j - 1) = Inr (take (j - 1) (tl st) @ drop j (tl st))"
    using py_pop_nat [of "j - 1" "tl st"] j(2) by simp
  have "make_pair (Some s) st =
          Inr ((fst (st ! 0), fst (snd (st ! 0)), fst (st ! j), fst (snd (st ! j))),
               take (j - 1) (tl st) @ drop j (tl st))"
    by (simp add: make_pair_def j(1) g0 gj p0 p1)
  with j show ?thesis by (intro exI [of _ j]) simp
qed

lemma remove_two_mset:
  assumes "1 \<le> j" "j < length st"
  shows "mset st = {#st ! 0, st ! j#} + mset (take (j - 1) (tl st) @ drop j (tl st))"
proof -
  from assms obtain x xs where st: "st = x # xs" by (cases st) auto
  with assms have "j - 1 < length xs" by auto
  then have "xs = take (j - 1) xs @ xs ! (j - 1) # drop (Suc (j - 1)) xs"
    by (rule id_take_nth_drop)
  then have "mset xs = {#xs ! (j - 1)#} + mset (take (j - 1) xs @ drop j xs)"
    using assms(1) by (metis One_nat_def Suc_pred less_eq_Suc_le mset.simps(2) mset_append
        union_mset_add_mset_right add_mset_add_single union_commute)
  moreover have "st ! j = xs ! (j - 1)" using st assms(1) by (cases j) auto
  ultimately show ?thesis using st by simp
qed

lemma pairing_ids_simps:
  "pairing_ids [] = []"
  "pairing_ids ((a, n1, b, n2) # ps) = a # b # pairing_ids ps"
  "pairing_ids (ps @ qs) = pairing_ids ps @ pairing_ids qs"
  by (simp_all add: pairing_ids_def)

lemma pairing_loop_Nil: "pairing_loop d [] ret = (Inr ret, d)"
  by (subst pairing_loop.simps) simp

lemma pairing_loop_even:
  assumes "even (length st)"
  shows "\<exists>out. pairing_loop (Some s) st ret = (Inr (ret @ out), Some s) \<and>
           length out = length st div 2 \<and>
           mset (pairing_ids out) = mset (map fst st)"
  using assms
proof (induction "length st" arbitrary: st ret rule: less_induct)
  case less
  show ?case
  proof (cases "st = []")
    case True
    then show ?thesis by (simp add: pairing_loop_Nil pairing_ids_simps)
  next
    case False
    with less.prems have len: "2 \<le> length st"
      by (cases st; cases "tl st") auto
    from make_pair_Some [OF len, of s]
    obtain j where j: "1 \<le> j" "j < length st"
      and mp: "make_pair (Some s) st =
             Inr ((fst (st ! 0), fst (snd (st ! 0)), fst (st ! j), fst (snd (st ! j))),
                  take (j - 1) (tl st) @ drop j (tl st))"
      by blast
    define temp where "temp = (fst (st ! 0), fst (snd (st ! 0)), fst (st ! j), fst (snd (st ! j)))"
    define st' where "st' = take (j - 1) (tl st) @ drop j (tl st)"
    have len': "length st' + 2 = length st"
      using j by (auto simp: st'_def)
    have "length st' < length st" using len' by simp
    moreover have "even (length st')" using less.prems len' by presburger
    ultimately have "length st' < length st" "even (length st')" by simp_all
    from less.hyps [OF this, of "ret @ [temp]"]
    obtain out' where out': "pairing_loop (Some s) st' (ret @ [temp]) = (Inr ((ret @ [temp]) @ out'), Some s)"
      "length out' = length st' div 2" "mset (pairing_ids out') = mset (map fst st')"
      by blast
    have unfold: "pairing_loop (Some s) st ret = pairing_loop (Some s) st' (ret @ [temp])"
      using False less.prems mp
      by (subst pairing_loop.simps) (simp add: temp_def st'_def)
    have "mset st = {#st ! 0, st ! j#} + mset st'"
      unfolding st'_def using j by (rule remove_two_mset)
    then have "mset (map fst st) = {#fst (st ! 0), fst (st ! j)#} + mset (map fst st')"
      by (metis (no_types, lifting) image_mset_add_mset image_mset_empty image_mset_union mset_map)
    moreover have "pairing_ids (temp # out') = fst (st ! 0) # fst (st ! j) # pairing_ids out'"
      by (simp add: temp_def pairing_ids_simps)
    ultimately have "mset (pairing_ids (temp # out')) = mset (map fst st)"
      using out'(3) by simp
    moreover have "length (temp # out') = length st div 2"
      using out'(2) len' by auto
    moreover have "pairing_loop (Some s) st ret = (Inr (ret @ temp # out'), Some s)"
      using unfold out'(1) by simp
    ultimately show ?thesis by blast
  qed
qed

lemma py_pop_length: "py_pop xs i = Inr ys \<Longrightarrow> Suc (length ys) = length xs"
  by (auto simp: py_pop_def py_index_def split: if_splits)

lemma make_pair_Nil: "make_pair d [] = Inl IndexError"
  by (simp add: make_pair_def rematch_scan.simps [of d "[]" 1] py_get_Nil)

lemma pairing_loop_bye:
  assumes "odd (length st)" "award_bye d st = (Inr st1, d1)"
  shows "pairing_loop d st ret =
           (if st1 = [] then (Inl IndexError, d1) else pairing_loop d1 st1 ret)"
proof -
  have ne: "st \<noteq> []" using assms(1) by auto
  have odd: "length st mod 2 \<noteq> 0" using assms(1) by presburger
  have "Suc (length st1) = length st"
    using assms(2) by (auto simp: award_bye_def split: sum.splits prod.splits dest!: py_pop_length)
  then have even: "length st1 mod 2 = 0" using assms(1) by presburger
  have lhs: "pairing_loop d st ret =
      (case make_pair d1 st1 of Inl e \<Rightarrow> (Inl e, d1)
       | Inr (temp, st2) \<Rightarrow> pairing_loop d1 st2 (ret @ [temp]))"
    using ne odd assms(2) by (subst pairing_loop.simps) simp
  show ?thesis
  proof (cases "st1 = []")
    case True
    then show ?thesis using lhs by (simp add: make_pair_Nil)
  next
    case False
    then have "pairing_loop d1 st1 ret =
      (case make_pair d1 st1 of Inl e \<Rightarrow> (Inl e, d1)
       | Inr (temp, st2) \<Rightarrow> pairing_loop d1 st2 (ret @ [temp]))"
      using even by (subst pairing_loop.simps) simp
    with lhs False show ?thesis by simp
  qed
qed

lemma swissPairings_Some:
  "playerStandings vw scan (Some s) = Inr st \<Longrightarrow>
     swissPairings vw scan (Some s) = pairing_loop (Some s) st []"
  by (simp add: swissPairings_def connect_def)

lemma playerStandings_Some:
  "\<exists>st. playerStandings vw scan (Some s) = Inr st"
  by (simp add: playerStandings_def connect_def Let_def)

lemma swissPairings_even:
  assumes "playerStandings vw scan (Some s) = Inr st" "even (length st)"
  shows "\<exists>out. swissPairings vw scan (Some s) = (Inr out, Some s) \<and>
           length out = length st div 2 \<and>
           mset (pairing_ids out) = mset (map fst st)"
  using pairing_loop_even [OF assms(2), of s "[]"] swissPairings_Some [OF assms(1)] by simp

lemma pairing_loop_odd:
  assumes "odd (length st)"
  shows "\<exists>i<length st.
           award_bye (Some s) st =
             (Inr (take i st @ drop (Suc i) st), snd (reportBye (Some s) (fst (st ! i)))) \<and>
           (if length st = 1
            then pairing_loop (Some s) st ret =
                   (Inl IndexError, snd (reportBye (Some s) (fst (st ! i))))
            else \<exists>out. pairing_loop (Some s) st ret =
                   (Inr (ret @ out), snd (reportBye (Some s) (fst (st ! i)))) \<and>
                   length out = (length st - 1) div 2 \<and>
                   mset (pairing_ids out) = mset (map fst (take i st @ drop (Suc i) st)))"
proof -
  have ne: "st \<noteq> []" using assms by auto
  from award_bye_Some [OF ne, of s] obtain i where i: "i < length st"
    and ab: "award_bye (Some s) st =
      (Inr (take i st @ drop (Suc i) st), snd (reportBye (Some s) (fst (st ! i))))"
    by blast
  define st1 where "st1 = take i st @ drop (Suc i) st"
  obtain s1 where s1: "snd (reportBye (Some s) (fst (st ! i))) = Some s1"
    by (simp add: reportBye_Some)
  have len1: "Suc (length st1) = length st" using i by (auto simp: st1_def)
  have loop: "pairing_loop (Some s) st ret =
      (if st1 = [] then (Inl IndexError, Some s1) else pairing_loop (Some s1) st1 ret)"
    using pairing_loop_bye [OF assms, of "Some s" st1 "Some s1" ret] ab s1 by (simp add: st1_def)
  show ?thesis
  proof (cases "length st = 1")
    case True
    then have "st1 = []" using len1 by simp
    with loop True i ab s1 show ?thesis by (intro exI [of _ i]) simp
  next
    case False
    then have ne1: "st1 \<noteq> []" using len1 ne by (cases st1) auto
    have "even (length st1)" using len1 assms by presburger
    from pairing_loop_even [OF this, of s1 ret]
    obtain out where out: "pairing_loop (Some s1) st1 ret = (Inr (ret @ out), Some s1)"
      "length out = length st1 div 2" "mset (pairing_ids out) = mset (map fst st1)"
      by blast
    have "length st1 = length st - 1" using len1 by simp
    with out loop ne1 s1 have "pairing_loop (Some s) st ret =
                   (Inr (ret @ out), snd (reportBye (Some s) (fst (st ! i)))) \<and>
                   length out = (length st - 1) div 2 \<and>
                   mset (pairing_ids out) = mset (map fst (take i st @ drop (Suc i) st))"
      by (simp add: st1_def)
    with False i ab show ?thesis by (intro exI [of _ i]) auto
  qed
qed

lemma swissPairings_no_rows:
  "playerStandings vw scan (Some s) = Inr [] \<Longrightarrow> swissPairings vw scan (Some s) = (Inr [], Some s)"
  by (simp add: swissPairings_Some pairing_loop_Nil)

lemma swissPairings_odd:
  assumes "playerStandings vw scan (Some s) = Inr st" "odd (length st)" "length st \<noteq> 1"
  shows "\<exists>out w s'. swissPairings vw scan (Some s) = (Inr out, Some s') \<and>
           length out = (length st - 1) div 2 \<and>
           w \<in> set (map fst st) \<and>
           players s' = add_win w (players s) \<and>
           match_history s' = match_history s @ [(w, - 1)]"
proof -
  from pairing_loop_odd [OF assms(2), of s "[]"] assms(3) obtain i out where i: "i < length st"
    and loop: "pairing_loop (Some s) st [] =
                   (Inr ([] @ out), snd (reportBye (Some s) (fst (st ! i))))"
    and len: "length out = (length st - 1) div 2"
    by auto
  let ?w = "fst (st ! i)"
  let ?s' = "s\<lparr>players := add_win ?w (players s),
                match_history := match_history s @ [(?w, - 1)]\<rparr>"
  have "swissPairings vw scan (Some s) = (Inr out, Some ?s')"
    using loop swissPairings_Some [OF assms(1)] by (simp add: reportBye_Some)
  moreover have "?w \<in> set (map fst st)" using i by simp
  ultimately show ?thesis using len by (intro exI [of _ out] exI [of _ ?w] exI [of _ ?s']) simp
qed

lemma swissPairings_one_row:
  assumes "playerStandings vw scan (Some s) = Inr [row]"
  shows "swissPairings vw scan (Some s) = (Inl IndexError, snd (reportBye (Some s) (fst row)))"
proof -
  have "odd (length [row])" by simp
  from pairing_loop_odd [OF this, of s "[]"]
  have "pairing_loop (Some s) [row] [] = (Inl IndexError, snd (reportBye (Some s) (fst row)))"
    by simp
  then show ?thesis using swissPairings_Some [OF assms] by simp
qed

lemma consistent_add_win:
  "list_all (\<lambda>p. matches_played p = wins p + losses p) ps \<Longrightarrow>
   list_all (\<lambda>p. matches_played p = wins p + losses p) (add_win i ps)"
  by (induction ps) (auto simp: add_win_def)

lemma consistent_add_loss:
  "list_all (\<lambda>p. matches_played p = wins p + losses p) ps \<Longrightarrow>
   list_all (\<lambda>p. matches_played p = wins p + losses p) (add_loss i ps)"
  by (induction ps) (auto simp: add_loss_def)

lemma reportMatch_cases:
  "reportMatch (Some s) w l = (Inl TypeError, Some s) \<or>
   reportMatch (Some s) w l =
     (Inr (), Some (s\<lparr>players := add_loss l (add_win w (players s)),
                       match_history := match_history s @ [(w, l)]\<rparr>))"
  by (auto simp: reportMatch_def connect_def Let_def split: option.splits)

lemma omw_no_history: "match_history s = [] \<Longrightarrow> omw s i = 0"
  by (simp add: omw_def)

lemma sort_key_nth_mono:
  fixes f :: "'a \<Rightarrow> 'k::linorder"
  assumes "i < j" "j < length xs"
  shows "f (sort_key f xs ! i) \<le> f (sort_key f xs ! j)"
proof -
  have "sorted (map f (sort_key f xs))" by (rule sorted_sort_key)
  moreover have "j < length (map f (sort_key f xs))" using assms(2) by simp
  ultimately have "map f (sort_key f xs) ! i \<le> map f (sort_key f xs) ! j"
    using assms(1) by (simp add: sorted_iff_nth_mono_less del: length_map nth_map)
  then show ?thesis using assms by simp
qed

lemma pairing_loop_even_forced:
  assumes "even (length st)"
  shows "\<exists>out. pairing_loop (Some s) st ret = (Inr (ret @ out), Some s) \<and>
           set (pairing_ids out) = set (map fst st) \<and>
           (\<forall>k p1 n1 p2 n2 q.
              k < length out \<and> out ! k = (p1, n1, p2, n2) \<and>
              rematchCheck (Some s) p1 p2 = Inr True \<and>
              q \<in> set (pairing_ids (drop (Suc k) out)) \<longrightarrow>
              rematchCheck (Some s) p1 q = Inr True)"
  using assms
proof (induction "length st" arbitrary: st ret rule: less_induct)
  case less
  show ?case
  proof (cases "st = []")
    case True
    then show ?thesis by (simp add: pairing_loop_Nil pairing_ids_simps)
  next
    case False
    with less.prems have len: "2 \<le> length st"
      by (cases st; cases "tl st") auto
    from make_pair_Some [OF len, of s]
    obtain j where j: "1 \<le> j" "j < length st"
      and mp: "make_pair (Some s) st =
             Inr ((fst (st ! 0), fst (snd (st ! 0)), fst (st ! j), fst (snd (st ! j))),
                  take (j - 1) (tl st) @ drop j (tl st))"
      and before: "\<forall>i. 1 \<le> i \<and> i < j \<longrightarrow>
              rematchCheck (Some s) (fst (st ! 0)) (fst (st ! i)) = Inr True"
      and stop: "j < length st - 1 \<longrightarrow>
              rematchCheck (Some s) (fst (st ! 0)) (fst (st ! j)) = Inr False"
      by blast
    define temp where "temp = (fst (st ! 0), fst (snd (st ! 0)), fst (st ! j), fst (snd (st ! j)))"
    define st' where "st' = take (j - 1) (tl st) @ drop j (tl st)"
    have len': "length st' + 2 = length st"
      using j by (auto simp: st'_def)
    have "length st' < length st" using len' by simp
    moreover have "even (length st')" using less.prems len' by presburger
    ultimately have "length st' < length st" "even (length st')" by simp_all
    from less.hyps [OF this, of "ret @ [temp]"]
    obtain out' where out': "pairing_loop (Some s) st' (ret @ [temp]) = (Inr ((ret @ [temp]) @ out'), Some s)"
      "set (pairing_ids out') = set (map fst st')"
      and forced': "\<forall>k p1 n1 p2 n2 q.
              k < length out' \<and> out' ! k = (p1, n1, p2, n2) \<and>
              rematchCheck (Some s) p1 p2 = Inr True \<and>
              q \<in> set (pairing_ids (drop (Suc k) out')) \<longrightarrow>
              rematchCheck (Some s) p1 q = Inr True"
      by blast
    have unfold: "pairing_loop (Some s) st ret = pairing_loop (Some s) st' (ret @ [temp])"
      using False less.prems mp
      by (subst pairing_loop.simps) (simp add: temp_def st'_def)
    have "mset st = {#st ! 0, st ! j#} + mset st'"
      unfolding st'_def using j by (rule remove_two_mset)
    then have "set st = {st ! 0, st ! j} \<union> set st'"
      by (metis set_mset_mset set_mset_union set_mset_add_mset_insert set_mset_empty)
    then have ids: "set (pairing_ids (temp # out')) = set (map fst st)"
      using out'(2) by (auto simp: temp_def pairing_ids_simps)
    have rows: "\<exists>i. 1 \<le> i \<and> i < length st \<and> q = fst (st ! i)" if "q \<in> set (map fst st')" for q
    proof -
      from that have "q \<in> set (map fst (tl st))"
        by (auto simp: st'_def dest: in_set_takeD in_set_dropD)
      then obtain n where "n < length (tl st)" "q = fst (tl st ! n)"
        by (auto simp: in_set_conv_nth)
      then have "1 \<le> Suc n \<and> Suc n < length st \<and> q = fst (st ! Suc n)"
        using False by (auto simp: nth_tl)
      then show ?thesis by blast
    qed
    have forced: "rematchCheck (Some s) p1 q = Inr True"
      if "k < length (temp # out')" "(temp # out') ! k = (p1, n1, p2, n2)"
        "rematchCheck (Some s) p1 p2 = Inr True"
        "q \<in> set (pairing_ids (drop (Suc k) (temp # out')))" for k p1 n1 p2 n2 q
    proof (cases k)
      case 0
      with that(2) have p1: "p1 = fst (st ! 0)" and p2: "p2 = fst (st ! j)"
        by (simp_all add: temp_def)
      have "\<not> j < length st - 1" using stop that(3) p1 p2 by auto
      with j have last: "j = length st - 1" by simp
      from that(4) 0 have "q \<in> set (map fst st')" using out'(2) by simp
      from rows [OF this] obtain i where i: "1 \<le> i" "i < length st" "q = fst (st ! i)" by blast
      show ?thesis
      proof (cases "i < j")
        case True
        then show ?thesis using before i p1 by simp
      next
        case False
        then have "i = j" using last i(2) by simp
        then show ?thesis using that(3) p2 i(3) by simp
      qed
    next
      case (Suc k')
      with that forced' show ?thesis by auto
    qed
    have "pairing_loop (Some s) st ret = (Inr (ret @ temp # out'), Some s)"
      using unfold out'(1) by simp
    with ids forced show ?thesis by (intro exI [of _ "temp # out'"]) blast
  qed
qed

lemma swissPairings_rematch_forced:
  assumes "swissPairings vw scan (Some s) = (Inr out, d')"
    "k < length out" "out ! k = (p1, n1, p2, n2)" "rematchCheck d' p1 p2 = Inr True"
    "q \<in> set (pairing_ids (drop (Suc k) out))"
  shows "rematchCheck d' p1 q = Inr True"
proof -
  obtain st where st: "playerStandings vw scan (Some s) = Inr st"
    using playerStandings_Some by blast
  then have sp: "pairing_loop (Some s) st [] = (Inr out, d')"
    using swissPairings_Some assms(1) by simp
  have "\<exists>s1 st1. even (length st1) \<and> pairing_loop (Some s1) st1 [] = (Inr out, d')"
  proof (cases "even (length st)")
    case True
    with sp show ?thesis by blast
  next
    case False
    then have ne: "st \<noteq> []" by auto
    from award_bye_Some [OF ne, of s] obtain i where i: "i < length st"
      and ab: "award_bye (Some s) st =
        (Inr (take i st @ drop (Suc i) st), snd (reportBye (Some s) (fst (st ! i))))"
      by blast
    obtain s1 where s1: "snd (reportBye (Some s) (fst (st ! i))) = Some s1"
      by (simp add: reportBye_Some)
    let ?st1 = "take i st @ drop (Suc i) st"
    have "Suc (length ?st1) = length st" using i by auto
    then have ev: "even (length ?st1)" using False by presburger
    have "pairing_loop (Some s) st [] =
        (if ?st1 = [] then (Inl IndexError, Some s1) else pairing_loop (Some s1) ?st1 [])"
      using pairing_loop_bye [OF False, of "Some s" ?st1 "Some s1" "[]"] ab s1 by simp
    with sp have "pairing_loop (Some s1) ?st1 [] = (Inr out, d')"
      by (auto split: if_splits)
    with ev show ?thesis by blast
  qed
  then obtain s1 st1 where ev: "even (length st1)"
    and loop: "pairing_loop (Some s1) st1 [] = (Inr out, d')" by blast
  from pairing_loop_even_forced [OF ev, of s1 "[]"] loop
  have d': "d' = Some s1"
    and forced: "\<forall>k p1 n1 p2 n2 q.
              k < length out \<and> out ! k = (p1, n1, p2, n2) \<and>
              rematchCheck (Some s1) p1 p2 = Inr True \<and>
              q \<in> set (pairing_ids (drop (Suc k) out)) \<longrightarrow>
              rematchCheck (Some s1) p1 q = Inr True"
    by auto
  from forced assms(2-5) d' show ?thesis by blast
qed

lemma playerStandings_fallback:
  assumes "match_history s = [] \<or> players s = []"
  shows "playerStandings player_standings scan (Some s) =
           Inr (map standing_of (sort_key (\<lambda>a. - wins a) (scan (players s))))"
proof -
  have "player_standings s = []" using assms by (auto simp: player_standings_def)
  then show ?thesis by (simp add: playerStandings_def connect_def)
qed

lemma playerStandings_view:
  assumes "match_history s \<noteq> []" "players s \<noteq> []"
  shows "playerStandings player_standings scan (Some s) =
           Inr (map standing_of
                  (sort_key (\<lambda>a. (- wins a, - omw s (player_id a))) (players s)))"
proof -
  let ?ps = "sort_key (\<lambda>a. (- wins a, - omw s (player_id a))) (players s)"
  have view: "player_standings s = map standing_of ?ps"
    using assms by (simp add: player_standings_def)
  have "length ?ps = length (players s)" by (rule length_sort)
  then have "length (player_standings s) \<noteq> 0" using assms view by simp
  then show ?thesis
    using view unfolding playerStandings_def connect_def Let_def by simp
qed

lemma playerStandings_ranked:
  assumes "\<forall>ps. mset (scan ps) = mset ps"
    "playerStandings player_standings scan (Some s) = Inr st" "i < j" "j < length st"
  shows "wins_col (st ! j) \<le> wins_col (st ! i) \<and>
         (wins_col (st ! j) = wins_col (st ! i) \<longrightarrow> omw s (fst (st ! j)) \<le> omw s (fst (st ! i)))"
proof (cases "match_history s = [] \<or> players s = []")
  case True
  let ?ps = "sort_key (\<lambda>a. - wins a) (scan (players s))"
  have st: "st = map standing_of ?ps"
    using playerStandings_fallback [OF True, of scan] assms(2) by simp
  have "mset (scan (players s)) = mset (players s)" using assms(1) by simp
  then have "length (scan (players s)) = length (players s)" by (rule mset_eq_length)
  then have len: "j < length (scan (players s))" "players s \<noteq> []"
    using assms(4) st by auto
  then have hist: "match_history s = []" using True by auto
  have "- wins (?ps ! i) \<le> - wins (?ps ! j)"
    using sort_key_nth_mono [of i j "scan (players s)" "\<lambda>a. - wins a"] assms(3) len by simp
  moreover have "st ! i = standing_of (?ps ! i)" "st ! j = standing_of (?ps ! j)"
    using st len assms(3) by simp_all
  ultimately have "wins_col (st ! j) \<le> wins_col (st ! i)"
    by (simp add: wins_col_def standing_of_def)
  with hist show ?thesis by (simp add: omw_no_history)
next
  case False
  let ?key = "\<lambda>a. (- wins a, - omw s (player_id a))"
  let ?ps = "sort_key ?key (players s)"
  have st: "st = map standing_of ?ps"
    using playerStandings_view [of s scan] False assms(2) by simp
  have len: "j < length (players s)" using assms(4) st by simp
  have "?key (?ps ! i) \<le> ?key (?ps ! j)"
    using sort_key_nth_mono [of i j "players s" ?key] assms(3) len by simp
  then have "wins (?ps ! j) \<le> wins (?ps ! i) \<and>
      (wins (?ps ! j) = wins (?ps ! i) \<longrightarrow>
         omw s (player_id (?ps ! j)) \<le> omw s (player_id (?ps ! i)))"
    by (auto simp: less_eq_prod_def)
  moreover have "st ! i = standing_of (?ps ! i)" "st ! j = standing_of (?ps ! j)"
    using st len assms(3) by simp_all
  ultimately show ?thesis
    by (simp add: wins_col_def standing_of_def)
qed

lemma swissPairings_store:
  "snd (swissPairings vw scan (Some s)) = Some s \<or>
   (\<exists>w. snd (swissPairings vw scan (Some s)) = snd (reportBye (Some s) w))"
proof -
  obtain st where st: "playerStandings vw scan (Some s) = Inr st"
    using playerStandings_Some by blast
  show ?thesis
  proof (cases "even (length st)")
    case True
    from swissPairings_even [OF st True] show ?thesis by auto
  next
    case False
    from pairing_loop_odd [OF False, of s "[]"] swissPairings_Some [OF st]
    show ?thesis by (auto split: if_splits)
  qed
qed

section \<open>The properties\<close>

text \<open>
  C1. With one row in the standings \<^verbatim>\<open>swissPairings\<close> returns no list. The bye of the
  only player is recorded and committed, the row is popped, and the pairing block then
  reads \<^verbatim>\<open>standings[0]\<close> of the empty list (line 211), which raises \<^verbatim>\<open>IndexError\<close>.
  For every other length the counts are as claimed (\<open>swissPairings_even\<close> and
  \<open>swissPairings_odd\<close> above).
\<close>

theorem single_player_round_raises:
  "swissPairings player_standings insertion_order (Some one_player) =
     (Inl IndexError,
      Some \<lparr>players = [\<lparr>player_id = 1, name = ''Bill'', wins = 1, losses = 0,
                          matches_played = 1\<rparr>],
            match_history = [(1, - 1)], next_id = 2\<rparr>)"
proof -
  have "playerStandings player_standings insertion_order (Some one_player) = Inr [(1, ''Bill'', 0, 0)]"
    by code_simp
  from swissPairings_one_row [OF this] show ?thesis
    by (simp add: reportBye_Some one_player_def new_player_def add_win_def)
qed

theorem single_player_round_raises_witness:
  "fst (swissPairings player_standings insertion_order (Some one_player)) = Inl IndexError"
  using single_player_round_raises by simp

text \<open>
  C2. When the pairing block of lines 207-214 produces a pair \<open>(p1, p2)\<close> that
  \<^verbatim>\<open>rematchCheck\<close> reports as a rematch, \<open>p1\<close> is the first row of the working
  standings and every other row still in the standings at that moment is a rematch for
  \<open>p1\<close> as well: no candidate that is not a rematch was available. The database and the
  working standings are arbitrary, so this holds at each pass of the loop. On the list
  that \<^verbatim>\<open>swissPairings\<close> returns this reads: a pair that is a rematch is a rematch
  of its first player with every player of the pairs after it, who are the candidates
  that were left (\<open>swissPairings_rematch_forced\<close> above).
\<close>

theorem rematch_only_when_forced:
  assumes "make_pair d st = Inr ((p1, n1, p2, n2), st')" "rematchCheck d p1 p2 = Inr True"
    "1 \<le> i" "i < length st"
  shows "p1 = fst (st ! 0) \<and> rematchCheck d p1 (fst (st ! i)) = Inr True"
proof -
  from assms(2) obtain s where d: "d = Some s"
    by (cases d) (auto simp: rematchCheck_def connect_def)
  have len: "2 \<le> length st" using assms(3,4) by simp
  from make_pair_Some [OF len, of s]
  obtain j where j: "1 \<le> j" "j < length st"
    and mp: "make_pair (Some s) st =
             Inr ((fst (st ! 0), fst (snd (st ! 0)), fst (st ! j), fst (snd (st ! j))),
                  take (j - 1) (tl st) @ drop j (tl st))"
    and before: "\<forall>i. 1 \<le> i \<and> i < j \<longrightarrow>
              rematchCheck (Some s) (fst (st ! 0)) (fst (st ! i)) = Inr True"
    and stop: "j < length st - 1 \<longrightarrow>
              rematchCheck (Some s) (fst (st ! 0)) (fst (st ! j)) = Inr False"
    by blast
  from mp assms(1) d have p1: "p1 = fst (st ! 0)" and p2: "p2 = fst (st ! j)" by simp_all
  have "\<not> j < length st - 1" using stop assms(2) d p1 p2 by auto
  with j have last: "j = length st - 1" by simp
  have "rematchCheck d p1 (fst (st ! i)) = Inr True"
  proof (cases "i < j")
    case True
    then show ?thesis using before assms(3) d p1 by simp
  next
    case False
    then have "i = j" using last assms(4) by simp
    then show ?thesis using assms(2) p2 by simp
  qed
  with p1 show ?thesis by simp
qed

theorem rematch_only_when_forced_witness:
  "rematchCheck (Some all_played) 1 2 = Inr True \<and> rematchCheck (Some all_played) 1 3 = Inr True"
proof -
  let ?st = "[(1, ''Bill'', 3, 3), (2, ''Rob'', 2, 3), (3, ''Jane'', 1, 3), (4, ''Jess'', 0, 3)]
               :: standing list"
  have h1: "make_pair (Some all_played) ?st =
              Inr ((1, ''Bill'', 4, ''Jess''), [(2, ''Rob'', 2, 3), (3, ''Jane'', 1, 3)])"
    by code_simp
  have h2: "rematchCheck (Some all_played) 1 4 = Inr True"
    by code_simp
  have a: "(1::nat) \<le> 1" "(1::nat) < length ?st" by simp_all
  have b: "(1::nat) \<le> 2" "(2::nat) < length ?st" by simp_all
  from rematch_only_when_forced [OF h1 h2 a] rematch_only_when_forced [OF h1 h2 b]
  show ?thesis by simp
qed

text \<open>
  C3. When the standings list has odd length and some row belongs to a player without a
  bye, the bye goes to the last such row: every row after it belongs to a player who had
  a bye, its own player had none, and the only change of the store during the call is
  \<^verbatim>\<open>reportBye\<close> for that player: the record \<open>(id, -1)\<close> is appended to
  \<^verbatim>\<open>match_history\<close>, and one win and one match are added to the player's counters.
\<close>

theorem bye_goes_to_last_without_bye:
  assumes "playerStandings vw scan (Some s) = Inr st" "odd (length st)"
    "i < length st" "checkBye (Some s) (fst (st ! i)) = Inr False"
  shows "\<exists>m. i \<le> m \<and> m < length st \<and>
           checkBye (Some s) (fst (st ! m)) = Inr False \<and>
           (\<forall>i'. m < i' \<and> i' < length st \<longrightarrow> checkBye (Some s) (fst (st ! i')) = Inr True) \<and>
           award_bye (Some s) st =
             (Inr (take m st @ drop (Suc m) st), snd (reportBye (Some s) (fst (st ! m)))) \<and>
           snd (swissPairings vw scan (Some s)) = snd (reportBye (Some s) (fst (st ! m))) \<and>
           (\<exists>s'. snd (swissPairings vw scan (Some s)) = Some s' \<and>
                 match_history s' = match_history s @ [(fst (st ! m), - 1)] \<and>
                 players s' =
                   map (\<lambda>p. if player_id p = fst (st ! m)
                            then p\<lparr>wins := wins p + 1, matches_played := matches_played p + 1\<rparr>
                            else p) (players s) \<and>
                 next_id s' = next_id s)"
proof -
  let ?B = "\<lambda>i. (fst (st ! i), - 1) \<in> set (match_history s)"
  have "\<not> ?B i" using assms(4) by (simp add: checkBye_Some)
  from last_without_bye [of i "length st" ?B, OF assms(3) this]
  obtain m where m: "m < length st" "\<not> ?B m" "\<forall>i'. m < i' \<and> i' < length st \<longrightarrow> ?B i'"
    by blast
  have im: "i \<le> m"
  proof (rule ccontr)
    assume "\<not> i \<le> m"
    then have "?B i" using m(3) assms(3) by simp
    with \<open>\<not> ?B i\<close> show False by simp
  qed
  have ab: "award_bye (Some s) st =
      (Inr (take m st @ drop (Suc m) st), snd (reportBye (Some s) (fst (st ! m))))"
    using award_bye_found [OF m] .
  from pairing_loop_odd [OF assms(2), of s "[]"] obtain k where
    ab': "award_bye (Some s) st =
             (Inr (take k st @ drop (Suc k) st), snd (reportBye (Some s) (fst (st ! k))))"
    and loop: "if length st = 1
            then pairing_loop (Some s) st [] =
                   (Inl IndexError, snd (reportBye (Some s) (fst (st ! k))))
            else \<exists>out. pairing_loop (Some s) st [] =
                   (Inr ([] @ out), snd (reportBye (Some s) (fst (st ! k)))) \<and>
                   length out = (length st - 1) div 2 \<and>
                   mset (pairing_ids out) = mset (map fst (take k st @ drop (Suc k) st))"
    by blast
  from ab ab' have "snd (reportBye (Some s) (fst (st ! k))) = snd (reportBye (Some s) (fst (st ! m)))"
    by simp
  then have "snd (pairing_loop (Some s) st []) = snd (reportBye (Some s) (fst (st ! m)))"
    using loop by (auto split: if_splits)
  then have final: "snd (swissPairings vw scan (Some s)) = snd (reportBye (Some s) (fst (st ! m)))"
    using swissPairings_Some [OF assms(1)] by simp
  have "checkBye (Some s) (fst (st ! m)) = Inr False"
    "\<forall>i'. m < i' \<and> i' < length st \<longrightarrow> checkBye (Some s) (fst (st ! i')) = Inr True"
    using m by (simp_all add: checkBye_Some)
  moreover have "\<exists>s'. snd (swissPairings vw scan (Some s)) = Some s' \<and>
                 match_history s' = match_history s @ [(fst (st ! m), - 1)] \<and>
                 players s' =
                   map (\<lambda>p. if player_id p = fst (st ! m)
                            then p\<lparr>wins := wins p + 1, matches_played := matches_played p + 1\<rparr>
                            else p) (players s) \<and>
                 next_id s' = next_id s"
    using final by (simp add: reportBye_Some add_win_def)
  ultimately show ?thesis using im m(1) ab final by blast
qed

theorem bye_goes_to_last_without_bye_witness:
  "award_bye (Some two_had_bye) [(1, ''Bill'', 2, 2), (2, ''Rob'', 1, 2), (3, ''Jane'', 1, 2)] =
     (Inr [(2, ''Rob'', 1, 2), (3, ''Jane'', 1, 2)], snd (reportBye (Some two_had_bye) 1)) \<and>
   snd (swissPairings player_standings insertion_order (Some two_had_bye)) =
     Some \<lparr>players =
             [\<lparr>player_id = 1, name = ''Bill'', wins = 3, losses = 0, matches_played = 3\<rparr>,
              \<lparr>player_id = 2, name = ''Rob'', wins = 1, losses = 1, matches_played = 2\<rparr>,
              \<lparr>player_id = 3, name = ''Jane'', wins = 1, losses = 1, matches_played = 2\<rparr>],
           match_history = [(3, - 1), (1, 2), (2, - 1), (1, 3), (1, - 1)],
           next_id = 4\<rparr>"
proof -
  let ?st = "[(1, ''Bill'', 2, 2), (2, ''Rob'', 1, 2), (3, ''Jane'', 1, 2)] :: standing list"
  have h1: "playerStandings player_standings insertion_order (Some two_had_bye) = Inr ?st"
    by code_simp
  have h2: "odd (length ?st)" by simp
  have h3: "0 < length ?st" by simp
  have h4: "checkBye (Some two_had_bye) (fst (?st ! 0)) = Inr False"
    by (simp add: checkBye_Some two_had_bye_def)
  from bye_goes_to_last_without_bye [OF h1 h2 h3 h4]
  obtain m where m: "m < length ?st" "checkBye (Some two_had_bye) (fst (?st ! m)) = Inr False"
    "award_bye (Some two_had_bye) ?st =
       (Inr (take m ?st @ drop (Suc m) ?st), snd (reportBye (Some two_had_bye) (fst (?st ! m))))"
    "\<exists>s'. snd (swissPairings player_standings insertion_order (Some two_had_bye)) = Some s' \<and>
          match_history s' = match_history two_had_bye @ [(fst (?st ! m), - 1)] \<and>
          players s' =
            map (\<lambda>p. if player_id p = fst (?st ! m)
                     then p\<lparr>wins := wins p + 1, matches_played := matches_played p + 1\<rparr>
                     else p) (players two_had_bye) \<and>
          next_id s' = next_id two_had_bye"
    by blast
  from m(1) have "m = 0 \<or> m = 1 \<or> m = 2" by auto
  with m(2) have "m = 0" by (auto simp: checkBye_Some two_had_bye_def)
  with m(3,4) obtain s' where
    c: "snd (swissPairings player_standings insertion_order (Some two_had_bye)) = Some s'"
    and d: "match_history s' = match_history two_had_bye @ [(1, - 1)]"
      "players s' =
         map (\<lambda>p. if player_id p = 1
                  then p\<lparr>wins := wins p + 1, matches_played := matches_played p + 1\<rparr>
                  else p) (players two_had_bye)"
      "next_id s' = next_id two_had_bye"
    by auto
  have "s' = \<lparr>players =
             [\<lparr>player_id = 1, name = ''Bill'', wins = 3, losses = 0, matches_played = 3\<rparr>,
              \<lparr>player_id = 2, name = ''Rob'', wins = 1, losses = 1, matches_played = 2\<rparr>,
              \<lparr>player_id = 3, name = ''Jane'', wins = 1, losses = 1, matches_played = 2\<rparr>],
           match_history = [(3, - 1), (1, 2), (2, - 1), (1, 3), (1, - 1)],
           next_id = 4\<rparr>"
    using d by (intro store.equality) (simp_all add: two_had_bye_def)
  with c \<open>m = 0\<close> m(3) show ?thesis by simp
qed

text \<open>
  C4. With no row in the standings \<^verbatim>\<open>swissPairings\<close> returns the empty list and leaves
  the store as it was. With exactly one row it records the bye of that player and then
  raises \<^verbatim>\<open>IndexError\<close>: it does not return the empty list.
\<close>

theorem no_player_and_one_player:
  "(playerStandings vw scan (Some s) = Inr [] \<longrightarrow> swissPairings vw scan (Some s) = (Inr [], Some s)) \<and>
   (playerStandings vw scan (Some s) = Inr [row] \<longrightarrow>
      swissPairings vw scan (Some s) = (Inl IndexError, snd (reportBye (Some s) (fst row))))"
  using swissPairings_no_rows [of vw scan s] swissPairings_one_row [of vw scan s row] by blast

theorem no_player_and_one_player_witness:
  "swissPairings player_standings insertion_order (Some \<lparr>players = [], match_history = [], next_id = 1\<rparr>) =
     (Inr [], Some \<lparr>players = [], match_history = [], next_id = 1\<rparr>) \<and>
   swissPairings player_standings insertion_order (Some one_player) =
     (Inl IndexError, snd (reportBye (Some one_player) 1))"
proof -
  have h0: "playerStandings player_standings insertion_order (Some \<lparr>players = [], match_history = [], next_id = 1\<rparr>) = Inr []"
    by code_simp
  have h1: "playerStandings player_standings insertion_order (Some one_player) = Inr [(1, ''Bill'', 0, 0)]"
    by code_simp
  from no_player_and_one_player [of player_standings insertion_order
      "\<lparr>players = [], match_history = [], next_id = 1\<rparr>"] h0
    no_player_and_one_player [of player_standings insertion_order one_player "(1, ''Bill'', 0, 0)"] h1
  show ?thesis by simp
qed

text \<open>
  C5. With the view \<open>player_standings\<close> as the specification describes it, and whatever
  the order in which the database reads the players table, the list
  \<^verbatim>\<open>playerStandings\<close> returns has non-increasing wins, and among rows of equal wins
  non-increasing opponents' match wins. With no match recorded the list is that of the
  query of lines 90-92: the rows of the players table, ranked by their wins alone.
\<close>

theorem standings_are_ranked:
  assumes "\<forall>ps. mset (scan ps) = mset ps"
    "playerStandings player_standings scan (Some s) = Inr st"
  shows "(\<forall>i j. i < j \<and> j < length st \<longrightarrow>
            wins_col (st ! j) \<le> wins_col (st ! i) \<and>
            (wins_col (st ! j) = wins_col (st ! i) \<longrightarrow>
               omw s (fst (st ! j)) \<le> omw s (fst (st ! i)))) \<and>
         (match_history s = [] \<longrightarrow>
            st = map standing_of (sort_key (\<lambda>a. - wins a) (scan (players s))) \<and>
            mset st = mset (map standing_of (players s)))"
proof -
  have ranked: "\<forall>i j. i < j \<and> j < length st \<longrightarrow>
            wins_col (st ! j) \<le> wins_col (st ! i) \<and>
            (wins_col (st ! j) = wins_col (st ! i) \<longrightarrow>
               omw s (fst (st ! j)) \<le> omw s (fst (st ! i)))"
    using playerStandings_ranked [OF assms] by blast
  have "st = map standing_of (sort_key (\<lambda>a. - wins a) (scan (players s))) \<and>
        mset st = mset (map standing_of (players s))" if "match_history s = []"
  proof -
    from that have st: "st = map standing_of (sort_key (\<lambda>a. - wins a) (scan (players s)))"
      using playerStandings_fallback [of s scan] assms(2) by simp
    have "mset (sort_key (\<lambda>a. - wins a) (scan (players s))) = mset (players s)"
      using assms(1) by simp
    then have "mset (map standing_of (sort_key (\<lambda>a. - wins a) (scan (players s)))) =
               mset (map standing_of (players s))"
      by (simp only: mset_map)
    with st show ?thesis by simp
  qed
  with ranked show ?thesis by blast
qed

theorem standings_are_ranked_witness:
  "wins_col (2, ''Rob'', 0, 1) = wins_col (4, ''Jess'', 0, 1) \<and>
   omw mid_round 2 \<le> omw mid_round 4 \<and>
   omw mid_round 2 \<noteq> omw mid_round 4 \<and>
   playerStandings player_standings reverse_order (Some two_registered) =
     Inr [(2, ''Rob'', 0, 0), (1, ''Bill'', 0, 0)] \<and>
   mset [(2, ''Rob'', 0, 0), (1, ''Bill'', 0, 0)] = mset (map standing_of (players two_registered))"
proof -
  let ?st = "[(3, ''Jane'', 2, 2), (1, ''Bill'', 1, 2), (4, ''Jess'', 0, 1), (2, ''Rob'', 0, 1)]
               :: standing list"
  let ?st2 = "[(2, ''Rob'', 0, 0), (1, ''Bill'', 0, 0)] :: standing list"
  have p1: "\<forall>ps. mset (insertion_order ps) = mset ps" by (simp add: insertion_order_def)
  have p2: "\<forall>ps. mset (reverse_order ps) = mset ps" by (simp add: reverse_order_def)
  have h1: "playerStandings player_standings insertion_order (Some mid_round) = Inr ?st"
    by code_simp
  have h2: "playerStandings player_standings reverse_order (Some two_registered) = Inr ?st2"
    by code_simp
  from standings_are_ranked [OF p1 h1]
  have r: "\<forall>i j. i < j \<and> j < length ?st \<longrightarrow>
            wins_col (?st ! j) \<le> wins_col (?st ! i) \<and>
            (wins_col (?st ! j) = wins_col (?st ! i) \<longrightarrow>
               omw mid_round (fst (?st ! j)) \<le> omw mid_round (fst (?st ! i)))"
    by blast
  have "(2::nat) < 3 \<and> (3::nat) < length ?st" by simp
  with r have "wins_col (?st ! 3) = wins_col (?st ! 2) \<longrightarrow>
               omw mid_round (fst (?st ! 3)) \<le> omw mid_round (fst (?st ! 2))" by blast
  then have a: "omw mid_round 2 \<le> omw mid_round 4" by (simp add: wins_col_def)
  have b: "omw mid_round 2 \<noteq> omw mid_round 4" by code_simp
  have "match_history two_registered = []" by (simp add: two_registered_def)
  with standings_are_ranked [OF p2 h2]
  have c: "mset ?st2 = mset (map standing_of (players two_registered))" by blast
  from a b c h2 show ?thesis by (simp add: wins_col_def)
qed

text \<open>
  C6. When the ids of the standings rows are pairwise distinct (the id is the key of a
  player), no id occurs twice in the list \<^verbatim>\<open>swissPairings\<close> returns, and every id
  in it is the id of a standings row.
\<close>

theorem pairings_use_each_player_once:
  assumes "playerStandings vw scan (Some s) = Inr st" "distinct (map fst st)"
    "swissPairings vw scan (Some s) = (Inr out, d')"
  shows "distinct (pairing_ids out) \<and> set (pairing_ids out) \<subseteq> set (map fst st)"
proof (cases "even (length st)")
  case True
  from swissPairings_even [OF assms(1) True] assms(3)
  have m: "mset (pairing_ids out) = mset (map fst st)" by auto
  then have "distinct (pairing_ids out) = distinct (map fst st)"
    by (rule mset_eq_imp_distinct_iff)
  moreover have "set (pairing_ids out) = set (map fst st)"
    using m by (rule mset_eq_setD)
  ultimately show ?thesis using assms(2) by simp
next
  case False
  from pairing_loop_odd [OF False, of s "[]"] obtain i where i: "i < length st"
    and loop: "if length st = 1
            then pairing_loop (Some s) st [] =
                   (Inl IndexError, snd (reportBye (Some s) (fst (st ! i))))
            else \<exists>out. pairing_loop (Some s) st [] =
                   (Inr ([] @ out), snd (reportBye (Some s) (fst (st ! i)))) \<and>
                   length out = (length st - 1) div 2 \<and>
                   mset (pairing_ids out) = mset (map fst (take i st @ drop (Suc i) st))"
    by blast
  have sp: "pairing_loop (Some s) st [] = (Inr out, d')"
    using swissPairings_Some [OF assms(1)] assms(3) by simp
  with loop have m: "mset (pairing_ids out) = mset (map fst (take i st @ drop (Suc i) st))"
    by (auto split: if_splits)
  then have "distinct (pairing_ids out) = distinct (map fst (take i st @ drop (Suc i) st))"
    by (rule mset_eq_imp_distinct_iff)
  moreover have "distinct (map fst (take i st @ drop (Suc i) st))"
  proof -
    have "distinct (take i (map fst st) @ drop (Suc i) (map fst st))"
      using assms(2) by (simp add: set_take_disj_set_drop_if_distinct)
    then show ?thesis by (simp add: take_map drop_map)
  qed
  moreover have "set (pairing_ids out) = set (map fst (take i st @ drop (Suc i) st))"
    using m by (rule mset_eq_setD)
  moreover have "set (map fst (take i st @ drop (Suc i) st)) \<subseteq> set (map fst st)"
    by (auto dest: in_set_takeD in_set_dropD)
  ultimately show ?thesis by simp
qed

theorem pairings_use_each_player_once_witness:
  "distinct (pairing_ids [(1, ''Bill'', 4, ''Jess''), (2, ''Rob'', 3, ''Jane'')])"
proof -
  let ?st = "[(1, ''Bill'', 3, 3), (2, ''Rob'', 2, 3), (3, ''Jane'', 1, 3), (4, ''Jess'', 0, 3)]
               :: standing list"
  have h1: "playerStandings player_standings insertion_order (Some all_played) = Inr ?st"
    by code_simp
  have h2: "distinct (map fst ?st)" by simp
  have h3: "swissPairings player_standings insertion_order (Some all_played) =
              (Inr [(1, ''Bill'', 4, ''Jess''), (2, ''Rob'', 3, ''Jane'')], Some all_played)"
    by code_simp
  from pairings_use_each_player_once [OF h1 h2 h3] show ?thesis by simp
qed

text \<open>
  C7. Each of \<^verbatim>\<open>reportMatch\<close>, \<^verbatim>\<open>reportBye\<close>, \<^verbatim>\<open>deleteMatches\<close> and
  \<^verbatim>\<open>registerPlayer\<close>, called on a store in which every player has
  \<open>matches_played = wins + losses\<close>, leaves a store in which every player has. So do
  the two other operations that write, \<^verbatim>\<open>deletePlayers\<close> and \<^verbatim>\<open>swissPairings\<close>.
\<close>

theorem counters_stay_consistent:
  assumes "consistent s"
  shows "(\<exists>s'. snd (reportMatch (Some s) winner loser) = Some s' \<and> consistent s') \<and>
         (\<exists>s'. snd (reportBye (Some s) winner) = Some s' \<and> consistent s') \<and>
         (\<exists>s'. snd (deleteMatches (Some s)) = Some s' \<and> consistent s') \<and>
         (\<exists>s'. snd (registerPlayer (Some s) n) = Some s' \<and> consistent s') \<and>
         (\<exists>s'. snd (deletePlayers (Some s)) = Some s' \<and> consistent s') \<and>
         (\<exists>s'. snd (swissPairings vw scan (Some s)) = Some s' \<and> consistent s')"
proof -
  have m: "\<exists>s'. snd (reportMatch (Some s) winner loser) = Some s' \<and> consistent s'"
    using reportMatch_cases [of s winner loser] assms
    by (auto simp: consistent_def consistent_add_win consistent_add_loss)
  have b: "\<exists>s'. snd (reportBye (Some s) w) = Some s' \<and> consistent s'" for w
    using assms by (simp add: reportBye_Some consistent_def consistent_add_win)
  have d: "\<exists>s'. snd (deleteMatches (Some s)) = Some s' \<and> consistent s'"
    by (simp add: deleteMatches_def connect_def consistent_def list_all_iff)
  have r: "\<exists>s'. snd (registerPlayer (Some s) n) = Some s' \<and> consistent s'"
    using assms by (simp add: registerPlayer_def connect_def consistent_def new_player_def)
  have p: "\<exists>s'. snd (deletePlayers (Some s)) = Some s' \<and> consistent s'"
    by (simp add: deletePlayers_def connect_def consistent_def)
  have sp: "\<exists>s'. snd (swissPairings vw scan (Some s)) = Some s' \<and> consistent s'"
    using swissPairings_store [of vw scan s] b assms by auto
  from m b [of winner] d r p sp show ?thesis by blast
qed

theorem counters_stay_consistent_witness:
  "consistent two_had_bye \<and>
   (\<exists>s'. snd (reportMatch (Some two_had_bye) 2 3) = Some s' \<and> consistent s') \<and>
   (\<exists>s'. snd (reportBye (Some two_had_bye) 2) = Some s' \<and> consistent s') \<and>
   (\<exists>s'. snd (deleteMatches (Some two_had_bye)) = Some s' \<and> consistent s') \<and>
   (\<exists>s'. snd (registerPlayer (Some two_had_bye) ''Jess'') = Some s' \<and> consistent s') \<and>
   (\<exists>s'. snd (deletePlayers (Some two_had_bye)) = Some s' \<and> consistent s') \<and>
   (\<exists>s'. snd (swissPairings player_standings insertion_order (Some two_had_bye)) = Some s' \<and> consistent s')"
proof -
  have h: "consistent two_had_bye" by (simp add: consistent_def two_had_bye_def)
  from h counters_stay_consistent [OF h, of 2 3 "''Jess''" player_standings insertion_order] show ?thesis by simp
qed

text \<open>
  C8 (as the code has it). A call of \<^verbatim>\<open>reportMatch\<close> in which the winner id or the loser
  id has no row in the players table raises \<^verbatim>\<open>TypeError\<close>, at the subscript of the
  \<^verbatim>\<open>None\<close> that \<^verbatim>\<open>fetchone\<close> returns (lines 133, 135); this is before the commit of
  line 137, so the store is left as it was.
\<close>

theorem reportMatch_unknown_player:
  assumes "winner \<notin> player_id ` set (players s) \<or> loser \<notin> player_id ` set (players s)"
  shows "reportMatch (Some s) winner loser = (Inl TypeError, Some s)"
proof -
  have ids_win: "player_id ` set (add_win i ps) = player_id ` set ps" for i ps
    by (induction ps) (auto simp: add_win_def)
  have ids_loss: "player_id ` set (add_loss i ps) = player_id ` set ps" for i ps
    by (induction ps) (auto simp: add_loss_def)
  have none: "fetchone (map name (filter (\<lambda>p. player_id p = i) ps)) = None
                \<longleftrightarrow> i \<notin> player_id ` set ps" for i ps
    by (induction ps) (auto simp: fetchone_def)
  let ?ps = "add_loss loser (add_win winner (players s))"
  have "fetchone (map name (filter (\<lambda>p. player_id p = winner) ?ps)) = None \<or>
        fetchone (map name (filter (\<lambda>p. player_id p = loser) ?ps)) = None"
    using assms by (simp add: none ids_win ids_loss)
  then show ?thesis
    by (auto simp: reportMatch_def connect_def Let_def select_name_def split: option.splits)
qed

theorem reportMatch_unknown_player_witness:
  "reportMatch (Some one_player) 1 7 = (Inl TypeError, Some one_player)"
proof -
  have "1 \<notin> player_id ` set (players one_player) \<or> 7 \<notin> player_id ` set (players one_player)"
    by (simp add: one_player_def new_player_def)
  from reportMatch_unknown_player [OF this] show ?thesis .
qed

theorem reportMatch_unknown_player_counterexample:
  "fst (reportMatch (Some one_player) 1 7) \<noteq> Inl InvalidPlayer"
  by (simp add: reportMatch_def connect_def one_player_def new_player_def add_win_def
      add_loss_def select_name_def fetchone_def)

text \<open>
  C9 (as the code has it). When the database cannot be reached, \<^verbatim>\<open>connect\<close> itself
  raises nothing: it returns \<^verbatim>\<open>None\<close>. Every other operation then raises
  \<^verbatim>\<open>TypeError\<close> at \<^verbatim>\<open>db, c = connect()\<close>, its first statement, before it reads or
  writes anything: none returns data.
\<close>

theorem unreachable_store_raises_TypeError:
  "connect None = None \<and>
   deleteMatches None = (Inl TypeError, None) \<and>
   deletePlayers None = (Inl TypeError, None) \<and>
   countPlayers None = Inl TypeError \<and>
   registerPlayer None n = (Inl TypeError, None) \<and>
   playerStandings vw scan None = Inl TypeError \<and>
   reportMatch None winner loser = (Inl TypeError, None) \<and>
   reportBye None winner = (Inl TypeError, None) \<and>
   swissPairings vw scan None = (Inl TypeError, None) \<and>
   checkBye None p1 = Inl TypeError \<and>
   rematchCheck None p1 p2 = Inl TypeError"
  by (simp add: connect_def deleteMatches_def deletePlayers_def countPlayers_def
      registerPlayer_def playerStandings_def reportMatch_def reportBye_def swissPairings_def
      checkBye_def rematchCheck_def)

theorem unreachable_store_raises_TypeError_witness:
  "connect None = None \<and> countPlayers None = Inl TypeError \<and>
   swissPairings player_standings insertion_order None = (Inl TypeError, None) \<and>
   reportMatch None 1 2 = (Inl TypeError, None)"
  using unreachable_store_raises_TypeError [of "''Bill''" player_standings insertion_order 1 2 1 2] by simp

theorem unreachable_store_counterexample:
  "playerStandings player_standings insertion_order None \<noteq> Inl StoreUnavailable"
  by (simp add: playerStandings_def connect_def)

text \<open>
  C10. When every row of an odd-length standings list belongs to a player who already had
  a bye, the scan of lines 195-198 stops with \<open>k = len + 1\<close>: it has read
  \<^verbatim>\<open>standings[-1]\<close>, the last row. \<^verbatim>\<open>reportBye\<close> then gives the last player a
  second bye (the record \<open>(id, -1)\<close> is appended to \<^verbatim>\<open>match_history\<close>, and one win
  and one match are added to the player's counters), the last row is popped, and the
  pairs are formed from the rows that are left.
\<close>

theorem second_bye_goes_to_last:
  assumes "playerStandings vw scan (Some s) = Inr st" "odd (length st)"
    "\<forall>i<length st. checkBye (Some s) (fst (st ! i)) = Inr True"
  shows "bye_scan (Some s) st 1 = Inr (int (length st) + 1) \<and>
         py_get st (int (length st) - (int (length st) + 1)) = Inr (last st) \<and>
         award_bye (Some s) st = (Inr (butlast st), snd (reportBye (Some s) (fst (last st)))) \<and>
         snd (swissPairings vw scan (Some s)) = snd (reportBye (Some s) (fst (last st))) \<and>
         (\<exists>s'. snd (swissPairings vw scan (Some s)) = Some s' \<and>
               match_history s' = match_history s @ [(fst (last st), - 1)] \<and>
               players s' =
                 map (\<lambda>p. if player_id p = fst (last st)
                          then p\<lparr>wins := wins p + 1, matches_played := matches_played p + 1\<rparr>
                          else p) (players s) \<and>
               next_id s' = next_id s) \<and>
         (length st \<noteq> 1 \<longrightarrow>
            (\<exists>out. fst (swissPairings vw scan (Some s)) = Inr out \<and>
                   mset (pairing_ids out) = mset (map fst (butlast st))))"
proof -
  have ne: "st \<noteq> []" using assms(2) by auto
  have byes: "\<forall>i<length st. (fst (st ! i), - 1) \<in> set (match_history s)"
    using assms(3) by (simp add: checkBye_Some)
  have "bye_scan (Some s) st (int (length st) - int (length st - 1)) = Inr (int (length st) + 1)"
  proof (rule bye_scan_all)
    show "length st - 1 < length st" using ne by simp
    show "\<forall>i\<le>length st - 1. (fst (st ! i), - 1) \<in> set (match_history s)"
      using byes ne by (auto simp: Suc_le_eq dest: le_imp_less_Suc)
  qed
  moreover have "int (length st) - int (length st - 1) = 1"
    using ne by (simp add: of_nat_diff Suc_leI)
  ultimately have scan: "bye_scan (Some s) st 1 = Inr (int (length st) + 1)" by simp
  have get: "py_get st (int (length st) - (int (length st) + 1)) = Inr (last st)"
    using py_get_last [OF ne] by simp
  have ab: "award_bye (Some s) st = (Inr (butlast st), snd (reportBye (Some s) (fst (last st))))"
    using award_bye_all [OF ne byes] .
  from pairing_loop_odd [OF assms(2), of s "[]"] obtain i where i: "i < length st"
    and ab': "award_bye (Some s) st =
             (Inr (take i st @ drop (Suc i) st), snd (reportBye (Some s) (fst (st ! i))))"
    and loop: "if length st = 1
            then pairing_loop (Some s) st [] =
                   (Inl IndexError, snd (reportBye (Some s) (fst (st ! i))))
            else \<exists>out. pairing_loop (Some s) st [] =
                   (Inr ([] @ out), snd (reportBye (Some s) (fst (st ! i)))) \<and>
                   length out = (length st - 1) div 2 \<and>
                   mset (pairing_ids out) = mset (map fst (take i st @ drop (Suc i) st))"
    by blast
  from ab ab' have eq: "take i st @ drop (Suc i) st = butlast st"
    "snd (reportBye (Some s) (fst (st ! i))) = snd (reportBye (Some s) (fst (last st)))"
    by simp_all
  have sp: "swissPairings vw scan (Some s) = pairing_loop (Some s) st []"
    using swissPairings_Some [OF assms(1)] .
  have final: "snd (swissPairings vw scan (Some s)) = snd (reportBye (Some s) (fst (last st)))"
    using loop eq sp by (auto split: if_splits)
  have pairs: "length st \<noteq> 1 \<longrightarrow>
            (\<exists>out. fst (swissPairings vw scan (Some s)) = Inr out \<and>
                   mset (pairing_ids out) = mset (map fst (butlast st)))"
    using loop eq sp by (auto split: if_splits)
  have store: "\<exists>s'. snd (swissPairings vw scan (Some s)) = Some s' \<and>
               match_history s' = match_history s @ [(fst (last st), - 1)] \<and>
               players s' =
                 map (\<lambda>p. if player_id p = fst (last st)
                          then p\<lparr>wins := wins p + 1, matches_played := matches_played p + 1\<rparr>
                          else p) (players s) \<and>
               next_id s' = next_id s"
    using final by (simp add: reportBye_Some add_win_def)
  from scan get ab final store pairs show ?thesis by blast
qed

theorem second_bye_goes_to_last_witness:
  "bye_scan (Some all_had_bye) [(1, ''Bill'', 3, 3), (2, ''Rob'', 2, 3), (3, ''Jane'', 1, 3)] 1 = Inr 4 \<and>
   award_bye (Some all_had_bye) [(1, ''Bill'', 3, 3), (2, ''Rob'', 2, 3), (3, ''Jane'', 1, 3)] =
     (Inr [(1, ''Bill'', 3, 3), (2, ''Rob'', 2, 3)], snd (reportBye (Some all_had_bye) 3)) \<and>
   snd (swissPairings player_standings insertion_order (Some all_had_bye)) =
     Some \<lparr>players =
             [\<lparr>player_id = 1, name = ''Bill'', wins = 3, losses = 0, matches_played = 3\<rparr>,
              \<lparr>player_id = 2, name = ''Rob'', wins = 2, losses = 1, matches_played = 3\<rparr>,
              \<lparr>player_id = 3, name = ''Jane'', wins = 2, losses = 2, matches_played = 4\<rparr>],
           match_history = [(3, - 1), (1, 2), (2, - 1), (1, 3), (1, - 1), (2, 3), (3, - 1)],
           next_id = 4\<rparr>"
proof -
  let ?st = "[(1, ''Bill'', 3, 3), (2, ''Rob'', 2, 3), (3, ''Jane'', 1, 3)] :: standing list"
  have h1: "playerStandings player_standings insertion_order (Some all_had_bye) = Inr ?st"
    by code_simp
  have h2: "odd (length ?st)" by simp
  have h3: "\<forall>i<length ?st. checkBye (Some all_had_bye) (fst (?st ! i)) = Inr True"
    by (simp add: checkBye_Some all_had_bye_def less_Suc_eq)
  from second_bye_goes_to_last [OF h1 h2 h3] obtain s' where
    a: "bye_scan (Some all_had_bye) ?st 1 = Inr (int (length ?st) + 1)"
    and b: "award_bye (Some all_had_bye) ?st =
       (Inr (butlast ?st), snd (reportBye (Some all_had_bye) (fst (last ?st))))"
    and c: "snd (swissPairings player_standings insertion_order (Some all_had_bye)) = Some s'"
    and d: "match_history s' = match_history all_had_bye @ [(fst (last ?st), - 1)]"
      "players s' =
         map (\<lambda>p. if player_id p = fst (last ?st)
                  then p\<lparr>wins := wins p + 1, matches_played := matches_played p + 1\<rparr>
                  else p) (players all_had_bye)"
      "next_id s' = next_id all_had_bye"
    by blast
  have "s' = \<lparr>players =
             [\<lparr>player_id = 1, name = ''Bill'', wins = 3, losses = 0, matches_played = 3\<rparr>,
              \<lparr>player_id = 2, name = ''Rob'', wins = 2, losses = 1, matches_played = 3\<rparr>,
              \<lparr>player_id = 3, name = ''Jane'', wins = 2, losses = 2, matches_played = 4\<rparr>],
           match_history = [(3, - 1), (1, 2), (2, - 1), (1, 3), (1, - 1), (2, 3), (3, - 1)],
           next_id = 4\<rparr>"
    using d by (intro store.equality) (simp_all add: all_had_bye_def)
  with a b c show ?thesis by simp
qed

end
